theory Spec2Isabelle
  imports Main "HOL-Library.Word"
begin

section \<open>Events, tasks and completion signals (dagreader/store.go)\<close>

text \<open>
  \<open>hash.Event\<close> is a content hash; it is kept as a number. The event is the header
  data the code touches: \<open>Hash()\<close>, \<open>Creator\<close>, \<open>Parents\<close>, and one field standing for
  the remaining header fields, which the code never reads one by one.
\<close>

type_synonym hash_event = nat

record event =
  Hash :: hash_event
  Creator :: nat
  Parents :: "hash_event list"
  HeaderRest :: nat

text \<open>
  A value that a Go function either returns or fails to return because it panics.
\<close>

datatype 'a result = Returns 'a | Panics

text \<open>
  \<open>task\<close>: the event and \<open>onDone\<close>. The only callback \<open>Save\<close> ever stores is the
  method value \<open>wg.Done\<close> of the \<open>sync.WaitGroup\<close> local to that call, so \<open>onDone\<close> is
  \<open>None\<close> (nil) or the address of that wait group in a store of counters.
\<close>

record task =
  event :: event
  onDone :: "nat option"

type_synonym waitgroups = "nat list"

definition Payload :: "task \<Rightarrow> event" where
  "Payload t = event t"

text \<open>
  \<open>sync.WaitGroup.Done\<close> decrements the counter and panics when it would become
  negative.
\<close>

definition wg_Done :: "nat \<Rightarrow> waitgroups \<Rightarrow> waitgroups result" where
  "wg_Done a w =
     (if a < length w \<and> 0 < w ! a then Returns (w[a := w ! a - 1]) else Panics)"

definition Done :: "task \<Rightarrow> waitgroups \<Rightarrow> waitgroups result" where
  "Done t w = (case onDone t of None \<Rightarrow> Returns w | Some a \<Rightarrow> wg_Done a w)"

section \<open>The recency cache\<close>

text \<open>
  \<open>lru.Cache\<close> of hashicorp/golang-lru, as the code uses it: \<open>Add\<close> and \<open>Get\<close> on a
  list of entries, most recently used first. \<open>Add\<close> of a known key moves it to the
  front with the new value; \<open>Add\<close> of a new key puts it in front and removes the oldest
  entry when the list is longer than the size. \<open>Get\<close> of a known key moves it to the
  front.
\<close>

record lru =
  lru_size :: nat
  items :: "(hash_event \<times> event) list"

definition lru_New :: "nat \<Rightarrow> lru" where
  "lru_New n = \<lparr>lru_size = n, items = []\<rparr>"

definition lru_Add :: "hash_event \<Rightarrow> event \<Rightarrow> lru \<Rightarrow> lru" where
  "lru_Add k v c =
     (case map_of (items c) k of
        Some _ \<Rightarrow> c\<lparr>items := (k, v) # filter (\<lambda>p. fst p \<noteq> k) (items c)\<rparr>
      | None \<Rightarrow>
          (let xs = (k, v) # items c
           in c\<lparr>items := (if lru_size c < length xs then butlast xs else xs)\<rparr>))"

definition lru_Get :: "hash_event \<Rightarrow> lru \<Rightarrow> event option \<times> lru" where
  "lru_Get k c =
     (case map_of (items c) k of
        Some v \<Rightarrow> (Some v, c\<lparr>items := (k, v) # filter (\<lambda>p. fst p \<noteq> k) (items c)\<rparr>)
      | None \<Rightarrow> (None, c))"

section \<open>The backing graph store\<close>

text \<open>
  The persisted schema: \<open>Event\<close> nodes with a unique \<open>id\<close> (the hex-encoded hash) and
  the header fields as properties, \<open>PARENT\<close> relationships from child to parent, and
  the \<open>Epoch\<close> node with \<open>id = 'current'\<close> and the 64-bit integer \<open>num\<close>.
\<close>

record node =
  n_id :: string
  n_creator :: nat
  n_rest :: nat

record graph =
  nodes :: "node list"
  rels :: "(string \<times> string) list"
  epoch_num :: "64 word option"

subsection \<open>Identifiers and field conversion\<close>

text \<open>
  Modelled from the spec: \<open>eventID\<close>, \<open>eventHash\<close>, \<open>marshal\<close>, \<open>unmarshal\<close> and
  \<open>readFields\<close> are not among the source files. The spec gives the node's \<open>id\<close> as the
  hex-encoded hash and the header fields as properties; \<open>GetEvent\<close> reads back \<open>id\<close>
  and \<open>creator\<close> only, so \<open>unmarshal\<close> fills those and leaves every other field of the
  fresh header at its zero value.
\<close>

definition hex_digit :: "nat \<Rightarrow> char" where
  "hex_digit d = (if d < 10 then char_of (48 + d) else char_of (87 + d))"

definition digit_val :: "char \<Rightarrow> nat" where
  "digit_val c = (let n = of_char c in if n < (58::nat) then n - 48 else n - 87)"

fun eventID :: "hash_event \<Rightarrow> string" where
  "eventID h = (if h < 16 then [hex_digit h] else eventID (h div 16) @ [hex_digit (h mod 16)])"

declare eventID.simps [simp del]

definition eventHash :: "string \<Rightarrow> hash_event" where
  "eventHash s = foldl (\<lambda>a c. 16 * a + digit_val c) 0 s"

definition marshal :: "event \<Rightarrow> node" where
  "marshal e = \<lparr>n_id = eventID (Hash e), n_creator = Creator e, n_rest = HeaderRest e\<rparr>"

definition unmarshal :: "string \<Rightarrow> nat \<Rightarrow> event" where
  "unmarshal i c = \<lparr>Hash = eventHash i, Creator = c, Parents = [], HeaderRest = 0\<rparr>"

subsection \<open>The statements the code sends\<close>

text \<open>
  Each definition is the meaning of one statement of the source on the graph.
  \<open>MATCH (e:Event {id})\<close> yields the nodes with that id.
\<close>

definition match_event :: "string \<Rightarrow> graph \<Rightarrow> node list" where
  "match_event i g = filter (\<lambda>n. n_id n = i) (nodes g)"

text \<open>
  \<open>CREATE (e:Event data)\<close> under the uniqueness constraint on \<open>id\<close>: the store rejects
  a second node with the same id (\<open>None\<close>).
\<close>

definition create_event :: "node \<Rightarrow> graph \<Rightarrow> graph option" where
  "create_event n g =
     (if match_event (n_id n) g = [] then Some (g\<lparr>nodes := nodes g @ [n]\<rparr>) else None)"

text \<open>
  \<open>MATCH (e:Event {id}), (p:Event {pid}) CREATE (e)-[:PARENT]->(p)\<close>: one relationship
  for every matching pair, none when either node is missing.
\<close>

definition create_parent :: "string \<Rightarrow> string \<Rightarrow> graph \<Rightarrow> graph" where
  "create_parent i p g =
     g\<lparr>rels := rels g @
        concat (map (\<lambda>e. map (\<lambda>q. (n_id e, n_id q)) (match_event p g)) (match_event i g))\<rparr>"

text \<open>\<open>MATCH (e:Event {id})-[:PARENT]->(p) RETURN p.id\<close>: one row per relationship.\<close>

definition match_parents :: "string \<Rightarrow> graph \<Rightarrow> string list" where
  "match_parents i g = map snd (filter (\<lambda>r. fst r = i) (rels g))"

text \<open>
  \<open>MATCH (p:Event {id})-[:PARENT*]->(s:Event) RETURN DISTINCT s.id\<close>: the ids of the
  nodes at the end of a path of one or more \<open>PARENT\<close> relationships, each id once. The
  ids are collected round by round; \<open>match_ancestors\<close> takes as many rounds as there
  are relationships, which is as long as a path that repeats no relationship gets.
\<close>

definition successors :: "graph \<Rightarrow> string list \<Rightarrow> string list" where
  "successors g xs = map snd (filter (\<lambda>r. fst r \<in> set xs) (rels g))"

fun ancestors_upto :: "graph \<Rightarrow> string \<Rightarrow> nat \<Rightarrow> string list" where
  "ancestors_upto g i 0 = []"
| "ancestors_upto g i (Suc k) =
     (let acc = ancestors_upto g i k in remdups (acc @ successors g (i # acc)))"

definition match_ancestors :: "string \<Rightarrow> graph \<Rightarrow> string list" where
  "match_ancestors i g =
     (if match_event i g = [] then [] else ancestors_upto g i (length (rels g)))"

text \<open>\<open>MATCH (e:Epoch {id:'current'}) SET e.num = n\<close> and \<open>RETURN e.num\<close>.\<close>

definition set_epoch_num :: "64 word \<Rightarrow> graph \<Rightarrow> graph" where
  "set_epoch_num n g = (case epoch_num g of None \<Rightarrow> g | Some _ \<Rightarrow> g\<lparr>epoch_num := Some n\<rparr>)"

section \<open>The driver\<close>

text \<open>
  What the neo4j driver reports during one transaction is an input of the model.
  \<open>RunFails\<close>: \<open>ctx.Run\<close> returns an error to \<open>exec\<close> or \<open>search\<close>. \<open>TxFails\<close>: the
  statements ran, and \<open>ReadTransaction\<close> or \<open>WriteTransaction\<close> returns a nil result
  with an error (the transaction did not begin or did not commit). Whether
  \<open>drv.Session\<close> succeeds is a separate input of each operation.
\<close>

datatype fault = NoFault | RunFails | TxFails

text \<open>
  A transaction function of the source panics on the error of \<open>exec\<close> or \<open>search\<close>,
  and the panic leaves through the driver. The result is the pair \<open>(res, err)\<close>:
  \<open>res\<close> is the interface value (\<open>None\<close> is nil), \<open>err\<close> tells whether the error is
  non-nil.
\<close>

definition ReadTransaction :: "fault \<Rightarrow> 'a option \<Rightarrow> ('a option \<times> bool) result" where
  "ReadTransaction f v =
     (case f of NoFault \<Rightarrow> Returns (v, False) | RunFails \<Rightarrow> Panics | TxFails \<Rightarrow> Returns (None, True))"

text \<open>
  A write transaction: \<open>w\<close> is what its statements make of the graph, \<open>None\<close> when the
  store rejects one of them. The rejection reaches the code as the error of the
  transaction, and nothing is written unless the transaction commits.
\<close>

definition WriteTransaction :: "fault \<Rightarrow> graph \<Rightarrow> graph option \<Rightarrow> (graph \<times> bool) result" where
  "WriteTransaction f g w =
     (case f of
        RunFails \<Rightarrow> Panics
      | TxFails \<Rightarrow> Returns (g, True)
      | NoFault \<Rightarrow> (case w of None \<Rightarrow> Returns (g, True) | Some g' \<Rightarrow> Returns (g', False)))"

section \<open>The store handle and its queries (package neo4j)\<close>

text \<open>
  Of the log, the trace lines of \<open>ignoreFakeError\<close> and the info lines of \<open>Load\<close> are
  recorded, the info lines with the fields \<open>last\<close> and \<open>total\<close>; the rate and the
  elapsed time are readings of the clock. Debug lines are not recorded.
\<close>

datatype log_line =
  Trace_non_critical
| Info_progress hash_event nat
| Info_total hash_event nat

record Db =
  drv :: graph
  EventsHeaders :: lru
  logged :: "log_line list"

definition ignoreFakeError :: "Db \<Rightarrow> Db" where
  "ignoreFakeError s = s\<lparr>logged := logged s @ [Trace_non_critical]\<rparr>"

definition HasEvent :: "bool \<Rightarrow> fault \<Rightarrow> hash_event \<Rightarrow> Db \<Rightarrow> bool result \<times> Db" where
  "HasEvent sess f e s =
     (case lru_Get e (EventsHeaders s) of
        (Some _, c) \<Rightarrow> (Returns True, s\<lparr>EventsHeaders := c\<rparr>)
      | (None, c) \<Rightarrow>
          if \<not> sess then (Panics, s)
          else
            (case ReadTransaction f (Some (match_event (eventID e) (drv s) \<noteq> [])) of
               Panics \<Rightarrow> (Panics, s)
             | Returns (res, err) \<Rightarrow>
                 (let s' = (if err then ignoreFakeError s else s)
                  in case res of None \<Rightarrow> (Panics, s') | Some has \<Rightarrow> (Returns has, s'))))"

text \<open>
  \<open>GetEvent\<close>: the first transaction returns the header of the first row or nil, the
  second the parents. \<open>None\<close> is the nil pointer.
\<close>

definition GetEvent ::
  "bool \<Rightarrow> fault \<Rightarrow> fault \<Rightarrow> hash_event \<Rightarrow> Db \<Rightarrow> event option result \<times> Db" where
  "GetEvent sess f1 f2 e s =
     (case lru_Get e (EventsHeaders s) of
        (Some ev, c) \<Rightarrow> (Returns (Some ev), s\<lparr>EventsHeaders := c\<rparr>)
      | (None, c) \<Rightarrow>
          if \<not> sess then (Panics, s)
          else
            (case ReadTransaction f1
                    (case match_event (eventID e) (drv s) of
                       [] \<Rightarrow> None
                     | n # _ \<Rightarrow> Some (unmarshal (n_id n) (n_creator n))) of
               Panics \<Rightarrow> (Panics, s)
             | Returns (res, err) \<Rightarrow>
                 (let s1 = (if err then ignoreFakeError s else s)
                  in case res of
                       None \<Rightarrow> (Returns None, s1)
                     | Some header \<Rightarrow>
                         (case ReadTransaction f2
                                 (Some (map eventHash (match_parents (eventID e) (drv s1)))) of
                            Panics \<Rightarrow> (Panics, s1)
                          | Returns (res2, err2) \<Rightarrow>
                              (let s2 = (if err2 then ignoreFakeError s1 else s1)
                               in case res2 of
                                    None \<Rightarrow> (Panics, s2)
                                  | Some ps \<Rightarrow> (Returns (Some (header\<lparr>Parents := ps\<rparr>)), s2))))))"

definition FindAncestors :: "bool \<Rightarrow> fault \<Rightarrow> hash_event \<Rightarrow> Db \<Rightarrow> hash_event list result \<times> Db" where
  "FindAncestors sess f e s =
     (if \<not> sess then (Panics, s)
      else
        (case ReadTransaction f (Some (map eventHash (match_ancestors (eventID e) (drv s)))) of
           Panics \<Rightarrow> (Panics, s)
         | Returns (res, err) \<Rightarrow>
             (let s' = (if err then ignoreFakeError s else s)
              in case res of None \<Rightarrow> (Panics, s') | Some as \<Rightarrow> (Returns as, s'))))"

text \<open>
  \<open>idx.Epoch\<close> is a 32-bit unsigned integer; the store keeps \<open>num\<close> as a 64-bit
  integer. \<open>SetEpoch\<close> writes the decimal value, \<open>GetEpoch\<close> converts the \<open>int64\<close> it
  reads.
\<close>

definition SetEpoch :: "bool \<Rightarrow> fault \<Rightarrow> 32 word \<Rightarrow> Db \<Rightarrow> unit result \<times> Db" where
  "SetEpoch sess f num s =
     (if \<not> sess then (Panics, s)
      else
        (case WriteTransaction f (drv s) (Some (set_epoch_num (ucast num) (drv s))) of
           Panics \<Rightarrow> (Panics, s)
         | Returns (g, err) \<Rightarrow>
             (Returns (), (if err then ignoreFakeError s else s)\<lparr>drv := g\<rparr>)))"

definition GetEpoch :: "bool \<Rightarrow> fault \<Rightarrow> Db \<Rightarrow> 32 word result \<times> Db" where
  "GetEpoch sess f s =
     (if \<not> sess then (Panics, s)
      else
        (case ReadTransaction f (map_option ucast (epoch_num (drv s))) of
           Panics \<Rightarrow> (Panics, s)
         | Returns (res, err) \<Rightarrow>
             (let s' = (if err then ignoreFakeError s else s)
              in case res of None \<Rightarrow> (Returns 1, s') | Some epoch \<Rightarrow> (Returns epoch, s'))))"

text \<open>
  \<open>New\<close>: the three DDL statements, then the cache of 500 entries. The error of a DDL
  transaction is ignored. The two constraints are taken to be in place afterwards (the
  statements above enforce them); the third statement creates the \<open>Epoch\<close> node with
  \<open>num = 1\<close>, which the store rejects when the node exists. \<open>None\<close> is the error
  return of \<open>New\<close>: no driver or no session.
\<close>

definition create_epoch :: "graph \<Rightarrow> graph option" where
  "create_epoch g = (case epoch_num g of None \<Rightarrow> Some (g\<lparr>epoch_num := Some 1\<rparr>) | Some _ \<Rightarrow> None)"

definition run_ddl ::
  "fault \<Rightarrow> (graph \<Rightarrow> graph option) \<Rightarrow> graph \<times> log_line list \<Rightarrow> graph \<times> log_line list" where
  "run_ddl f stmt = (\<lambda>(g, lg).
     case f of
       NoFault \<Rightarrow> (case stmt g of Some g' \<Rightarrow> (g', lg) | None \<Rightarrow> (g, lg @ [Trace_non_critical]))
     | RunFails \<Rightarrow> (g, lg @ [Trace_non_critical])
     | TxFails \<Rightarrow> (g, lg @ [Trace_non_critical]))"

definition New :: "bool \<Rightarrow> fault \<Rightarrow> fault \<Rightarrow> fault \<Rightarrow> graph \<Rightarrow> Db option" where
  "New sess f1 f2 f3 g =
     (if \<not> sess then None
      else
        (let (g', lg) = run_ddl f3 create_epoch (run_ddl f2 Some (run_ddl f1 Some (g, [])))
         in Some \<lparr>drv = g', EventsHeaders = lru_New 500, logged = lg\<rparr>))"

subsection \<open>Load\<close>

text \<open>
  The variables of \<open>Load\<close> that outlive one round of its loop. Times are in
  milliseconds; \<open>reported\<close> starts as the zero time (\<open>None\<close>), from which every
  reading of the clock is more than the limit away.
\<close>

record loader =
  reported :: "int option"
  total_n :: nat
  last_ev :: hash_event

definition statsReportLimit :: int where
  "statsReportLimit = 8 * 1000"

definition report_due :: "int \<Rightarrow> int option \<Rightarrow> bool" where
  "report_due now r = (case r of None \<Rightarrow> True | Some t \<Rightarrow> statsReportLimit \<le> now - t)"

definition loader_start :: loader where
  "loader_start = \<lparr>reported = None, total_n = 0, last_ev = 0\<rparr>"

text \<open>
  The statements of one write transaction of \<open>Load\<close>: the node, then one
  relationship per parent, in the order of \<open>event.Parents\<close>.
\<close>

definition create_parents :: "string \<Rightarrow> hash_event list \<Rightarrow> graph \<Rightarrow> graph" where
  "create_parents i ps g = foldl (\<lambda>g' p. create_parent i (eventID p) g') g ps"

definition store_event :: "event \<Rightarrow> graph \<Rightarrow> graph option" where
  "store_event ev g =
     (case create_event (marshal ev) g of
        None \<Rightarrow> None
      | Some g1 \<Rightarrow> Some (create_parents (eventID (Hash ev)) (Parents ev) g1))"

text \<open>
  One round of the loop of \<open>Load\<close> on the task it received: \<open>f\<close> is what the driver
  reports during the transaction, \<open>now\<close> the clock when the report is considered.
\<close>

definition Load_step ::
  "fault \<Rightarrow> int \<Rightarrow> task \<Rightarrow> Db \<times> loader \<times> waitgroups \<Rightarrow> (Db \<times> loader \<times> waitgroups) result" where
  "Load_step f now t = (\<lambda>(s, l, w).
     (let ev = Payload t
      in case WriteTransaction f (drv s) (store_event ev (drv s)) of
           Panics \<Rightarrow> Panics
         | Returns (g, err) \<Rightarrow>
             (let s1 = (if err then ignoreFakeError s else s)\<lparr>drv := g\<rparr>;
                  s2 = s1\<lparr>EventsHeaders := lru_Add (Hash ev) ev (EventsHeaders s1)\<rparr>
              in case Done t w of
                   Panics \<Rightarrow> Panics
                 | Returns w' \<Rightarrow>
                     (let l1 = l\<lparr>total_n := total_n l + 1, last_ev := Hash ev\<rparr>
                      in if report_due now (reported l1)
                         then Returns
                                (s2\<lparr>logged := logged s2 @ [Info_progress (last_ev l1) (total_n l1)]\<rparr>,
                                 l1\<lparr>reported := Some now\<rparr>, w')
                         else Returns (s2, l1, w')))))"

definition Load_summary :: "Db \<times> loader \<times> waitgroups \<Rightarrow> Db \<times> loader \<times> waitgroups" where
  "Load_summary = (\<lambda>(s, l, w). (s\<lparr>logged := logged s @ [Info_total (last_ev l) (total_n l)]\<rparr>, l, w))"



section \<open>The pipeline (dagreader/store.go)\<close>

text \<open>
  The \<open>store\<close> with its channel \<open>out\<close> (the buffered tasks, oldest first, and whether
  the channel is closed), and what runs on it: the calls of \<open>Save\<close>, each at a place
  of its body, their wait groups, and the goroutine of \<open>newStore\<close> that runs \<open>Load\<close>.
  Call \<open>n\<close> owns wait group \<open>n\<close>. \<open>sent\<close> and \<open>handled\<close> keep the order in which tasks
  entered the channel and in which \<open>Load\<close> finished a round on them; the program has
  no such variables. \<open>WaitForAll\<close> only waits for \<open>Load\<close> to return and is left out.
\<close>

datatype pc = Sending | Waiting | Returned

record call =
  c_task :: task
  c_pc :: pc

datatype consumer = Starting | Running | Finished

record store =
  Neo4jDb :: Db
  out :: "task list"
  out_closed :: bool
  synced :: bool
  wgs :: waitgroups
  calls :: "call list"
  load_vars :: loader
  load_state :: consumer
  crashed :: bool
  sent :: "task list"
  handled :: "task list"

definition out_cap :: nat where
  "out_cap = 10"

definition newStore :: "Db \<Rightarrow> bool \<Rightarrow> store" where
  "newStore db sy =
     \<lparr>Neo4jDb = db, out = [], out_closed = False, synced = sy, wgs = [], calls = [],
      load_vars = loader_start, load_state = Starting, crashed = False, sent = [], handled = []\<rparr>"

text \<open>
  What one goroutine does next. \<open>Save_enter\<close>: a caller enters \<open>Save\<close>, which makes
  the wait group and the task. \<open>Save_send\<close>: the send on \<open>out\<close>. \<open>Save_return\<close>: the wait,
  if any, is over and \<open>Save\<close> returns. \<open>Close\<close>: the call of \<open>Close\<close>. \<open>Load_begin\<close>:
  \<open>Load\<close> opens its session. \<open>Load_next\<close>: \<open>Load\<close> receives a task and runs one round.
  \<open>Load_end\<close>: the range over the closed, empty channel ends, and \<open>Load\<close> prints the
  summary and returns. \<open>Query\<close>: some goroutine calls one of the queries of the handle,
  with what the driver reports to it; the caller keeps the answer, the handle keeps the
  change of its cache and log.
\<close>

datatype query =
  Ask_HasEvent hash_event
| Ask_GetEvent hash_event
| Ask_FindAncestors hash_event
| Ask_GetEpoch
| Ask_SetEpoch "32 word"

definition after :: "'a result \<times> Db \<Rightarrow> Db option" where
  "after = (\<lambda>(r, d). case r of Returns _ \<Rightarrow> Some d | Panics \<Rightarrow> None)"

definition ask :: "bool \<Rightarrow> fault \<Rightarrow> fault \<Rightarrow> query \<Rightarrow> Db \<Rightarrow> Db option" where
  "ask sess f f2 q d =
     (case q of
        Ask_HasEvent h \<Rightarrow> after (HasEvent sess f h d)
      | Ask_GetEvent h \<Rightarrow> after (GetEvent sess f f2 h d)
      | Ask_FindAncestors h \<Rightarrow> after (FindAncestors sess f h d)
      | Ask_GetEpoch \<Rightarrow> after (GetEpoch sess f d)
      | Ask_SetEpoch num \<Rightarrow> after (SetEpoch sess f num d))"

datatype action =
  Save_enter event
| Save_send nat
| Save_return nat
| Close
| Load_begin bool
| Load_next fault int
| Load_end
| Query bool fault fault query

text \<open>
  \<open>step a s\<close> is \<open>None\<close> when the goroutine cannot take the step in \<open>s\<close>: it is
  blocked, it is not at that place, or the process is gone after a panic. A send on a
  closed channel and a second close panic, and so does a query or a round of \<open>Load\<close>
  that panics.
\<close>

definition step :: "action \<Rightarrow> store \<Rightarrow> store option" where
  "step a s =
     (if crashed s then None
      else
        (case a of
           Save_enter e \<Rightarrow>
             Some (s\<lparr>wgs := wgs s @ [if synced s then 1 else 0],
                     calls := calls s @
                       [\<lparr>c_task = \<lparr>event = e,
                                    onDone = (if synced s then Some (length (wgs s)) else None)\<rparr>,
                         c_pc = Sending\<rparr>]\<rparr>)
         | Save_send n \<Rightarrow>
             (if n < length (calls s) \<and> c_pc (calls s ! n) = Sending
              then
                (if out_closed s then Some (s\<lparr>crashed := True\<rparr>)
                 else if length (out s) < out_cap
                 then Some (s\<lparr>out := out s @ [c_task (calls s ! n)],
                               sent := sent s @ [c_task (calls s ! n)],
                               calls := (calls s)[n := (calls s ! n)\<lparr>c_pc := Waiting\<rparr>]\<rparr>)
                 else None)
              else None)
         | Save_return n \<Rightarrow>
             (if n < length (calls s) \<and> c_pc (calls s ! n) = Waiting
                 \<and> (if synced s then n < length (wgs s) \<and> wgs s ! n = 0 else True)
              then Some (s\<lparr>calls := (calls s)[n := (calls s ! n)\<lparr>c_pc := Returned\<rparr>]\<rparr>)
              else None)
         | Close \<Rightarrow>
             Some (if out_closed s then s\<lparr>crashed := True\<rparr> else s\<lparr>out_closed := True\<rparr>)
         | Load_begin sess \<Rightarrow>
             (if load_state s = Starting
              then Some (if sess then s\<lparr>load_state := Running\<rparr> else s\<lparr>crashed := True\<rparr>)
              else None)
         | Load_next f now \<Rightarrow>
             (if load_state s = Running
              then
                (case out s of
                   [] \<Rightarrow> None
                 | t # ts \<Rightarrow>
                     (case Load_step f now t (Neo4jDb s, load_vars s, wgs s) of
                        Panics \<Rightarrow> Some (s\<lparr>out := ts, crashed := True\<rparr>)
                      | Returns (d, l, w) \<Rightarrow>
                          Some (s\<lparr>Neo4jDb := d, out := ts, wgs := w, load_vars := l,
                                  handled := handled s @ [t]\<rparr>)))
              else None)
         | Load_end \<Rightarrow>
             (if load_state s = Running \<and> out s = [] \<and> out_closed s
              then
                (case Load_summary (Neo4jDb s, load_vars s, wgs s) of
                   (d, l, w) \<Rightarrow> Some (s\<lparr>Neo4jDb := d, load_state := Finished\<rparr>))
              else None)
         | Query sess f f2 q \<Rightarrow>
             (case ask sess f f2 q (Neo4jDb s) of
                None \<Rightarrow> Some (s\<lparr>crashed := True\<rparr>)
              | Some d \<Rightarrow> Some (s\<lparr>Neo4jDb := d\<rparr>))))"

fun run :: "action list \<Rightarrow> store \<Rightarrow> store option" where
  "run [] s = Some s"
| "run (a # as) s = (case step a s of None \<Rightarrow> None | Some s' \<Rightarrow> run as s')"

section \<open>Notions the statements use\<close>

text \<open>
  The graph a round of \<open>Load\<close> leaves behind: the statements take effect when the
  driver reports nothing and the store accepts them, else the graph is as before.
\<close>

definition committed :: "fault \<Rightarrow> event \<Rightarrow> graph \<Rightarrow> graph" where
  "committed f ev g =
     (case f of
        NoFault \<Rightarrow> (case store_event ev g of None \<Rightarrow> g | Some g' \<Rightarrow> g')
      | RunFails \<Rightarrow> g
      | TxFails \<Rightarrow> g)"

definition stored :: "hash_event \<Rightarrow> store \<Rightarrow> bool" where
  "stored h s \<longleftrightarrow> match_event (eventID h) (drv (Neo4jDb s)) \<noteq> []"

fun is_total :: "log_line \<Rightarrow> bool" where
  "is_total (Info_total _ _) = True"
| "is_total _ = False"

text \<open>A step in which the driver reports no failure to \<open>Load\<close>.\<close>

fun no_fault :: "action \<Rightarrow> bool" where
  "no_fault (Load_next f now) = (f = NoFault)"
| "no_fault _ = True"


text \<open>What holds in every state of the pipeline.\<close>

definition inv_sizes :: "store \<Rightarrow> bool" where
  "inv_sizes s \<longleftrightarrow>
     length (wgs s) = length (calls s) \<and>
     length (out s) \<le> out_cap \<and>
     total_n (load_vars s) = length (handled s) \<and>
     (load_state s = Finished \<longrightarrow> out s = [] \<and> out_closed s)"

definition inv_hist :: "store \<Rightarrow> bool" where
  "inv_hist s \<longleftrightarrow>
     (\<not> crashed s \<longrightarrow> sent s = handled s @ out s) \<and>
     set (handled s) \<subseteq> set (sent s) \<and>
     set (sent s) \<subseteq> c_task ` set (calls s)"

definition inv_tasks :: "store \<Rightarrow> bool" where
  "inv_tasks s \<longleftrightarrow>
     (\<forall>n<length (calls s). onDone (c_task (calls s ! n)) = (if synced s then Some n else None))"

definition inv_sync :: "store \<Rightarrow> bool" where
  "inv_sync s \<longleftrightarrow>
     (synced s \<longrightarrow>
        distinct (sent s) \<and>
        (\<forall>n<length (calls s).
           (c_pc (calls s ! n) = Sending) = (c_task (calls s ! n) \<notin> set (sent s)) \<and>
           wgs s ! n = (if c_task (calls s ! n) \<in> set (handled s) then 0 else 1) \<and>
           (c_pc (calls s ! n) = Returned \<longrightarrow> c_task (calls s ! n) \<in> set (handled s))))"

definition pipeline_inv :: "store \<Rightarrow> bool" where
  "pipeline_inv s \<longleftrightarrow> inv_sizes s \<and> inv_hist s \<and> inv_tasks s \<and> inv_sync s"

definition inv_fin :: "Db \<Rightarrow> bool \<Rightarrow> store \<Rightarrow> bool" where
  "inv_fin db sy s \<longleftrightarrow>
     synced s = sy \<and>
     lru_size (EventsHeaders (Neo4jDb s)) = lru_size (EventsHeaders db) \<and>
     filter is_total (logged (Neo4jDb s)) =
       filter is_total (logged db) @
       (if load_state s = Finished
        then [Info_total (last_ev (load_vars s)) (total_n (load_vars s))] else []) \<and>
     (load_state s = Finished \<longrightarrow> sent s = handled s)"

definition inv_stored :: "store \<Rightarrow> bool" where
  "inv_stored s \<longleftrightarrow> (\<forall>t\<in>set (handled s). stored (Hash (event t)) s)"

text \<open>
  While \<open>Load\<close> has finished no more rounds than the cache has room for, starting from
  an empty cache, nothing has been evicted: every event of a finished round is in the
  cache under its hash, or a later one with the same hash is.
\<close>

definition inv_cache :: "store \<Rightarrow> bool" where
  "inv_cache s \<longleftrightarrow>
     length (items (EventsHeaders (Neo4jDb s))) \<le> length (handled s) \<and>
     (length (handled s) \<le> lru_size (EventsHeaders (Neo4jDb s)) \<longrightarrow>
        (\<forall>t\<in>set (handled s). \<exists>t'\<in>set (handled s).
           Hash (event t') = Hash (event t) \<and>
           map_of (items (EventsHeaders (Neo4jDb s))) (Hash (event t)) = Some (event t')))"

text \<open>What a query leaves of the handle as it was.\<close>

definition same_handle :: "Db \<Rightarrow> Db \<Rightarrow> bool" where
  "same_handle d d' \<longleftrightarrow>
     nodes (drv d') = nodes (drv d) \<and> rels (drv d') = rels (drv d) \<and>
     lru_size (EventsHeaders d') = lru_size (EventsHeaders d) \<and>
     map_of (items (EventsHeaders d')) = map_of (items (EventsHeaders d)) \<and>
     length (items (EventsHeaders d')) \<le> length (items (EventsHeaders d)) \<and>
     filter is_total (logged d') = filter is_total (logged d)"

subsection \<open>Example values\<close>

text \<open>
  An empty graph, the handle \<open>New\<close> makes of it, the handle it makes when the
  third DDL transaction fails, and the events A, B (parent A) and C (parents A, B).
\<close>

definition g_empty :: graph where
  "g_empty = \<lparr>nodes = [], rels = [], epoch_num = None\<rparr>"

definition db_fresh :: Db where
  "db_fresh = \<lparr>drv = \<lparr>nodes = [], rels = [], epoch_num = Some 1\<rparr>,
               EventsHeaders = lru_New 500, logged = []\<rparr>"

definition db_unbooted :: Db where
  "db_unbooted = \<lparr>drv = g_empty, EventsHeaders = lru_New 500, logged = [Trace_non_critical]\<rparr>"

definition evA :: event where
  "evA = \<lparr>Hash = 10, Creator = 1, Parents = [], HeaderRest = 7\<rparr>"




definition fill_out :: "action list" where
  "fill_out = replicate 11 (Save_enter evA) @ map Save_send [0..<10]"

definition enter_A :: "action list" where
  "enter_A = [Load_begin True, Save_enter evA]"











definition db_epoch5 :: Db where
  "db_epoch5 = \<lparr>drv = \<lparr>nodes = [], rels = [], epoch_num = Some 5\<rparr>,
                 EventsHeaders = lru_New 500, logged = []\<rparr>"


section \<open>Identifiers\<close>





section \<open>Cache and runs\<close>


section \<open>Rounds of Load and the invariant of the pipeline\<close>

text \<open>The step function, one action at a time.\<close>

lemma step_Save_enter:
  "step (Save_enter e) s =
     (if crashed s then None
      else Some (s\<lparr>wgs := wgs s @ [if synced s then 1 else 0],
                   calls := calls s @
                     [\<lparr>c_task = \<lparr>event = e,
                                  onDone = (if synced s then Some (length (wgs s)) else None)\<rparr>,
                       c_pc = Sending\<rparr>]\<rparr>))"
  by (simp add: step_def)

lemma step_Save_send:
  "step (Save_send n) s =
     (if crashed s then None
      else if n < length (calls s) \<and> c_pc (calls s ! n) = Sending
      then
        (if out_closed s then Some (s\<lparr>crashed := True\<rparr>)
         else if length (out s) < out_cap
         then Some (s\<lparr>out := out s @ [c_task (calls s ! n)],
                       sent := sent s @ [c_task (calls s ! n)],
                       calls := (calls s)[n := (calls s ! n)\<lparr>c_pc := Waiting\<rparr>]\<rparr>)
         else None)
      else None)"
  by (simp add: step_def)

lemma step_Save_return:
  "step (Save_return n) s =
     (if crashed s then None
      else if n < length (calls s) \<and> c_pc (calls s ! n) = Waiting
              \<and> (if synced s then n < length (wgs s) \<and> wgs s ! n = 0 else True)
      then Some (s\<lparr>calls := (calls s)[n := (calls s ! n)\<lparr>c_pc := Returned\<rparr>]\<rparr>)
      else None)"
  by (simp add: step_def)

lemma step_Close:
  "step Close s =
     (if crashed s then None
      else Some (if out_closed s then s\<lparr>crashed := True\<rparr> else s\<lparr>out_closed := True\<rparr>))"
  by (simp add: step_def)

lemma step_Load_begin:
  "step (Load_begin sess) s =
     (if crashed s then None
      else if load_state s = Starting
      then Some (if sess then s\<lparr>load_state := Running\<rparr> else s\<lparr>crashed := True\<rparr>)
      else None)"
  by (simp add: step_def)

lemma step_Load_next:
  "step (Load_next f now) s =
     (if crashed s then None
      else if load_state s = Running
      then
        (case out s of
           [] \<Rightarrow> None
         | t # ts \<Rightarrow>
             (case Load_step f now t (Neo4jDb s, load_vars s, wgs s) of
                Panics \<Rightarrow> Some (s\<lparr>out := ts, crashed := True\<rparr>)
              | Returns (d, l, w) \<Rightarrow>
                  Some (s\<lparr>Neo4jDb := d, out := ts, wgs := w, load_vars := l,
                          handled := handled s @ [t]\<rparr>)))
      else None)"
  by (simp add: step_def)

lemma step_Load_end:
  "step Load_end s =
     (if crashed s then None
      else if load_state s = Running \<and> out s = [] \<and> out_closed s
      then
        (case Load_summary (Neo4jDb s, load_vars s, wgs s) of
           (d, l, w) \<Rightarrow> Some (s\<lparr>Neo4jDb := d, load_state := Finished\<rparr>))
      else None)"
  by (simp add: step_def)

lemma step_Query:
  "step (Query sess f f2 q) s =
     (if crashed s then None
      else
        (case ask sess f f2 q (Neo4jDb s) of
           None \<Rightarrow> Some (s\<lparr>crashed := True\<rparr>)
         | Some d \<Rightarrow> Some (s\<lparr>Neo4jDb := d\<rparr>)))"
  by (simp add: step_def)

lemmas step_simps =
  step_Save_enter step_Save_send step_Save_return step_Close step_Load_begin step_Load_next
  step_Load_end step_Query

lemma Load_step_Returns:
  assumes "Load_step f now t (d, l, w) = Returns (d', l', w')"
  shows "f \<noteq> RunFails" and "Done t w = Returns w'"
    and "total_n l' = Suc (total_n l)" and "last_ev l' = Hash (event t)"
    and "EventsHeaders d' = lru_Add (Hash (event t)) (event t) (EventsHeaders d)"
  using assms
  by (auto simp: Load_step_def WriteTransaction_def Payload_def Let_def ignoreFakeError_def
      split: fault.splits option.splits result.splits if_splits)


lemma inv_newStore: "pipeline_inv (newStore db sy)"
  by (simp add: pipeline_inv_def inv_sizes_def inv_hist_def inv_tasks_def inv_sync_def
      newStore_def loader_start_def)

text \<open>In synchronous mode the tasks of different calls differ.\<close>

lemma task_of_call:
  assumes "inv_hist s" "inv_tasks s" "t \<in> set (sent s)"
  shows "\<exists>n<length (calls s). t = c_task (calls s ! n) \<and> onDone t = (if synced s then Some n else None)"
proof -
  from assms(1,3) obtain c where "c \<in> set (calls s)" "t = c_task c"
    unfolding inv_hist_def by blast
  then obtain n where "n < length (calls s)" "t = c_task (calls s ! n)"
    by (metis in_set_conv_nth)
  with assms(2) show ?thesis unfolding inv_tasks_def by blast
qed

lemma task_inj:
  assumes "inv_tasks s" "synced s" "n < length (calls s)" "m < length (calls s)"
    "c_task (calls s ! n) = c_task (calls s ! m)"
  shows "n = m"
  using assms unfolding inv_tasks_def by (metis option.inject)

lemma inv_Save_enter:
  assumes "pipeline_inv s" "step (Save_enter e) s = Some s'" shows "pipeline_inv s'"
proof -
  let ?t = "\<lparr>event = e, onDone = (if synced s then Some (length (wgs s)) else None)\<rparr>"
  from assms(2) have s': "s' = s\<lparr>wgs := wgs s @ [if synced s then 1 else 0],
                     calls := calls s @ [\<lparr>c_task = ?t, c_pc = Sending\<rparr>]\<rparr>"
    by (auto simp: step_simps split: if_splits)
  from assms(1) have sz: "inv_sizes s" and hi: "inv_hist s" and ta: "inv_tasks s" and sy: "inv_sync s"
    by (simp_all add: pipeline_inv_def)
  have len: "length (wgs s) = length (calls s)" using sz by (simp add: inv_sizes_def)
  have fresh: "?t \<notin> set (sent s)" if "synced s"
  proof
    assume "?t \<in> set (sent s)"
    from task_of_call [OF hi ta this] that len show False by auto
  qed
  have 1: "inv_sizes s'" using sz by (simp add: inv_sizes_def s')
  have 2: "inv_hist s'" using hi by (auto simp: inv_hist_def s')
  have 3: "inv_tasks s'" using ta len by (simp add: inv_tasks_def s' nth_append)
  have 4: "inv_sync s'"
  proof (cases "synced s")
    case True
    have h: "?t \<notin> set (handled s)" using fresh [OF True] hi by (auto simp: inv_hist_def)
    show ?thesis using sy True fresh h len
      by (simp add: inv_sync_def s' nth_append less_Suc_eq)
  next
    case False
    then show ?thesis by (simp add: inv_sync_def s')
  qed
  from 1 2 3 4 show ?thesis by (simp add: pipeline_inv_def)
qed

lemma inv_Close:
  assumes "pipeline_inv s" "step Close s = Some s'" shows "pipeline_inv s'"
proof -
  from assms(2) have "s' = s\<lparr>crashed := True\<rparr> \<or> s' = s\<lparr>out_closed := True\<rparr>" and "\<not> crashed s"
    by (auto simp: step_simps split: if_splits)
  with assms(1) show ?thesis
    by (auto simp: pipeline_inv_def inv_sizes_def inv_hist_def inv_tasks_def inv_sync_def)
qed

lemma inv_Load_begin:
  assumes "pipeline_inv s" "step (Load_begin b) s = Some s'" shows "pipeline_inv s'"
proof -
  from assms(2) have "s' = s\<lparr>crashed := True\<rparr> \<or> s' = s\<lparr>load_state := Running\<rparr>" and "\<not> crashed s"
    by (auto simp: step_simps split: if_splits)
  with assms(1) show ?thesis
    by (auto simp: pipeline_inv_def inv_sizes_def inv_hist_def inv_tasks_def inv_sync_def)
qed

lemma inv_Load_end:
  assumes "pipeline_inv s" "step Load_end s = Some s'" shows "pipeline_inv s'"
proof -
  from assms(2) have "\<exists>d. s' = s\<lparr>Neo4jDb := d, load_state := Finished\<rparr>" and "\<not> crashed s"
    and "out s = []" "out_closed s"
    by (auto simp: step_simps Load_summary_def split: if_splits)
  with assms(1) show ?thesis
    by (auto simp: pipeline_inv_def inv_sizes_def inv_hist_def inv_tasks_def inv_sync_def)
qed

lemma inv_Save_return:
  assumes "pipeline_inv s" "step (Save_return n) s = Some s'" shows "pipeline_inv s'"
proof -
  from assms(2) have s': "s' = s\<lparr>calls := (calls s)[n := (calls s ! n)\<lparr>c_pc := Returned\<rparr>]\<rparr>"
    and n: "n < length (calls s)" "c_pc (calls s ! n) = Waiting"
    and w: "synced s \<Longrightarrow> wgs s ! n = 0"
    by (auto simp: step_simps split: if_splits)
  from assms(1) have sz: "inv_sizes s" and hi: "inv_hist s" and ta: "inv_tasks s" and sy: "inv_sync s"
    by (simp_all add: pipeline_inv_def)
  have tasks: "map c_task ((calls s)[n := (calls s ! n)\<lparr>c_pc := Returned\<rparr>]) = map c_task (calls s)"
    using n by (simp add: map_update list_update_same_conv)
  have 1: "inv_sizes s'" using sz by (simp add: inv_sizes_def s')
  have 2: "inv_hist s'" using hi tasks unfolding inv_hist_def s'
    by (simp add: set_map [symmetric] del: set_map)
  have 3: "inv_tasks s'" using ta n by (simp add: inv_tasks_def s' nth_list_update)
  have 4: "inv_sync s'" using sy n w by (auto simp: inv_sync_def s' nth_list_update split: if_splits)
  from 1 2 3 4 show ?thesis by (simp add: pipeline_inv_def)
qed


lemma inv_Save_send:
  assumes "pipeline_inv s" "step (Save_send n) s = Some s'" shows "pipeline_inv s'"
proof -
  from assms(1) have sz: "inv_sizes s" and hi: "inv_hist s" and ta: "inv_tasks s" and sy: "inv_sync s"
    by (simp_all add: pipeline_inv_def)
  let ?t = "c_task (calls s ! n)"
  from assms(2) have nc: "\<not> crashed s" and n: "n < length (calls s)" "c_pc (calls s ! n) = Sending"
    by (auto simp: step_simps split: if_splits)
  show ?thesis
  proof (cases "out_closed s")
    case True
    with assms(2) n nc have "s' = s\<lparr>crashed := True\<rparr>" by (simp add: step_simps)
    with assms(1) show ?thesis
      by (auto simp: pipeline_inv_def inv_sizes_def inv_hist_def inv_tasks_def inv_sync_def)
  next
    case False
    with assms(2) n nc have room: "length (out s) < out_cap"
      and s': "s' = s\<lparr>out := out s @ [?t], sent := sent s @ [?t],
                       calls := (calls s)[n := (calls s ! n)\<lparr>c_pc := Waiting\<rparr>]\<rparr>"
      by (auto simp: step_simps split: if_splits)
    have tasks: "map c_task ((calls s)[n := (calls s ! n)\<lparr>c_pc := Waiting\<rparr>]) = map c_task (calls s)"
      using n by (simp add: map_update list_update_same_conv)
    have tin: "?t \<in> c_task ` set (calls s)" using n by simp
    have 1: "inv_sizes s'" using sz room False by (auto simp: inv_sizes_def s')
    have 2: "inv_hist s'" using hi tasks tin nc unfolding inv_hist_def s'
      by (auto simp add: set_map [symmetric] simp del: set_map)
    have 3: "inv_tasks s'" using ta n by (simp add: inv_tasks_def s' nth_list_update)
    have 4: "inv_sync s'"
    proof (cases "synced s")
      case True
      have new: "?t \<notin> set (sent s)" using sy True n by (simp add: inv_sync_def)
      have other: "c_task (calls s ! m) \<noteq> ?t" if "m < length (calls s)" "m \<noteq> n" for m
        using task_inj [OF ta True that(1) n(1)] that(2) by blast
      show ?thesis using sy True n new other
        by (auto simp: inv_sync_def s' nth_list_update)
    next
      case False
      then show ?thesis by (simp add: inv_sync_def s')
    qed
    from 1 2 3 4 show ?thesis by (simp add: pipeline_inv_def)
  qed
qed

text \<open>The completion signal of the task at the head of the channel has not fired.\<close>

lemma head_Done:
  assumes "pipeline_inv s" "\<not> crashed s" "out s = t # ts"
  shows "\<exists>w. Done t (wgs s) = Returns w \<and> length w = length (wgs s) \<and>
           (case onDone t of None \<Rightarrow> w = wgs s
            | Some k \<Rightarrow> k < length (wgs s) \<and> wgs s ! k = 1 \<and> w = (wgs s)[k := 0])"
proof -
  from assms(1) have sz: "inv_sizes s" and hi: "inv_hist s" and ta: "inv_tasks s" and sy: "inv_sync s"
    by (simp_all add: pipeline_inv_def)
  have sent: "sent s = handled s @ t # ts" using hi assms(2,3) by (simp add: inv_hist_def)
  then have "t \<in> set (sent s)" by simp
  from task_of_call [OF hi ta this] obtain n where n: "n < length (calls s)" "t = c_task (calls s ! n)"
    "onDone t = (if synced s then Some n else None)" by blast
  show ?thesis
  proof (cases "synced s")
    case True
    then have "distinct (sent s)" using sy by (simp add: inv_sync_def)
    with sent have "t \<notin> set (handled s)" by auto
    with sy True n have "wgs s ! n = 1" by (simp add: inv_sync_def)
    moreover have "n < length (wgs s)" using sz n by (simp add: inv_sizes_def)
    ultimately show ?thesis using n True by (simp add: Done_def wg_Done_def)
  next
    case False
    with n show ?thesis by (simp add: Done_def)
  qed
qed

lemma inv_Load_next:
  assumes "pipeline_inv s" "step (Load_next f now) s = Some s'" shows "pipeline_inv s'"
proof -
  from assms(1) have sz: "inv_sizes s" and hi: "inv_hist s" and ta: "inv_tasks s" and sy: "inv_sync s"
    by (simp_all add: pipeline_inv_def)
  from assms(2) have nc: "\<not> crashed s" and run: "load_state s = Running"
    by (auto simp: step_simps split: if_splits)
  from assms(2) nc run obtain t ts where out: "out s = t # ts"
    by (cases "out s") (auto simp: step_simps)
  have sent: "sent s = handled s @ t # ts" using hi nc out by (simp add: inv_hist_def)
  show ?thesis
  proof (cases "Load_step f now t (Neo4jDb s, load_vars s, wgs s)")
    case Panics
    with assms(2) nc run out have "s' = s\<lparr>out := ts, crashed := True\<rparr>" by (simp add: step_simps)
    with assms(1) out show ?thesis
      by (auto simp: pipeline_inv_def inv_sizes_def inv_hist_def inv_tasks_def inv_sync_def)
  next
    case (Returns r)
    obtain d l w where r: "r = (d, l, w)" by (cases r)
    from assms(2) nc run out Returns r
    have s': "s' = s\<lparr>Neo4jDb := d, out := ts, wgs := w, load_vars := l, handled := handled s @ [t]\<rparr>"
      by (simp add: step_simps)
    from Returns r have dn: "Done t (wgs s) = Returns w" and tot: "total_n l = Suc (total_n (load_vars s))"
      by (auto dest: Load_step_Returns)
    from head_Done [OF assms(1) nc out] dn
    have lw: "length w = length (wgs s)"
      and wk: "case onDone t of None \<Rightarrow> w = wgs s
               | Some k \<Rightarrow> k < length (wgs s) \<and> wgs s ! k = 1 \<and> w = (wgs s)[k := 0]"
      by auto
    have 1: "inv_sizes s'" using sz out lw tot run by (auto simp: inv_sizes_def s')
    have 2: "inv_hist s'" using hi sent by (auto simp: inv_hist_def s')
    have 3: "inv_tasks s'" using ta by (simp add: inv_tasks_def s')
    have 4: "inv_sync s'"
    proof (cases "synced s")
      case True
      have "t \<in> set (sent s)" using sent by simp
      from task_of_call [OF hi ta this] True obtain k where k: "k < length (calls s)"
        "t = c_task (calls s ! k)" "onDone t = Some k" by auto
      have w: "w = (wgs s)[k := 0]" using wk k by simp
      have len: "length (wgs s) = length (calls s)" using sz by (simp add: inv_sizes_def)
      have other: "c_task (calls s ! m) \<noteq> t" if "m < length (calls s)" "m \<noteq> k" for m
        using task_inj [OF ta True that(1) k(1)] that(2) k(2) by blast
      show ?thesis using sy True k(1,2) other len
        by (auto simp: inv_sync_def s' w nth_list_update)
    next
      case False
      then show ?thesis by (simp add: inv_sync_def s')
    qed
    from 1 2 3 4 show ?thesis by (simp add: pipeline_inv_def)
  qed
qed

lemma inv_Query:
  assumes "pipeline_inv s" "step (Query b f f2 q) s = Some s'" shows "pipeline_inv s'"
proof -
  from assms(2) have "s' = s\<lparr>crashed := True\<rparr> \<or> (\<exists>d. s' = s\<lparr>Neo4jDb := d\<rparr>)"
    by (auto simp: step_simps split: if_splits option.splits)
  with assms(1) show ?thesis
    by (auto simp: pipeline_inv_def inv_sizes_def inv_hist_def inv_tasks_def inv_sync_def)
qed

lemma inv_step: "pipeline_inv s \<Longrightarrow> step a s = Some s' \<Longrightarrow> pipeline_inv s'"
  by (cases a) (auto intro: inv_Save_enter inv_Save_send inv_Save_return inv_Close
      inv_Load_begin inv_Load_next inv_Load_end inv_Query)

lemma inv_run: "pipeline_inv s \<Longrightarrow> run as s = Some s' \<Longrightarrow> pipeline_inv s'"
  by (induction as arbitrary: s) (auto split: option.splits dest: inv_step)

section \<open>Ancestors\<close>









section \<open>The write transaction on the graph\<close>

lemma nodes_create_parent [simp]: "nodes (create_parent i p g) = nodes g"
  by (simp add: create_parent_def)

lemma match_event_create_parent [simp]: "match_event j (create_parent i p g) = match_event j g"
  by (simp add: match_event_def)


lemma match_event_nonempty: "match_event i g \<noteq> [] \<longleftrightarrow> i \<in> n_id ` set (nodes g)"
  by (auto simp: match_event_def filter_empty_conv)


lemma nodes_create_parents [simp]: "nodes (create_parents i ps g) = nodes g"
  by (induction ps arbitrary: g) (simp_all add: create_parents_def)

lemma epoch_create_parents [simp]: "epoch_num (create_parents i ps g) = epoch_num g"
  by (induction ps arbitrary: g) (simp_all add: create_parents_def create_parent_def)


lemma store_event_Some:
  "store_event ev g = Some g' \<longleftrightarrow>
     match_event (eventID (Hash ev)) g = [] \<and>
     g' = create_parents (eventID (Hash ev)) (Parents ev) (g\<lparr>nodes := nodes g @ [marshal ev]\<rparr>)"
  by (auto simp: store_event_def create_event_def marshal_def split: option.splits)





section \<open>Summary, stored events and draining\<close>

lemma lru_size_Add [simp]: "lru_size (lru_Add k v c) = lru_size c"
  by (simp add: lru_Add_def Let_def split: option.splits)

lemma Load_step_Db:
  assumes "Load_step f now t (d, l, w) = Returns (d', l', w')"
  shows "drv d' = committed f (event t) (drv d)"
    and "lru_size (EventsHeaders d') = lru_size (EventsHeaders d)"
    and "filter is_total (logged d') = filter is_total (logged d)"
  using assms
  by (auto simp: Load_step_def WriteTransaction_def Payload_def Let_def ignoreFakeError_def committed_def
      split: fault.splits option.splits result.splits if_splits)

lemma committed_keeps: "match_event i g \<noteq> [] \<Longrightarrow> match_event i (committed f ev g) \<noteq> []"
  by (auto simp: committed_def store_event_Some match_event_nonempty split: fault.splits option.splits)

lemma committed_NoFault: "match_event (eventID (Hash ev)) (committed NoFault ev g) \<noteq> []"
proof (cases "store_event ev g")
  case None
  then show ?thesis by (auto simp: committed_def store_event_def create_event_def marshal_def split: option.splits if_splits)
next
  case (Some g')
  then have "nodes g' = nodes g @ [marshal ev]" by (simp add: store_event_Some)
  with Some show ?thesis by (simp add: committed_def match_event_nonempty marshal_def)
qed

lemma lru_Get_miss_same: "fst (lru_Get h c) = None \<Longrightarrow> lru_Get h c = (None, c)"
  by (simp add: lru_Get_def split: option.splits)

lemma map_of_filter_other:
  "map_of (filter (\<lambda>p. fst p \<noteq> k) xs) x = (if x = k then None else map_of xs x)"
  by (induction xs) auto

lemma lru_Get_same:
  "map_of (items (snd (lru_Get k c))) = map_of (items c) \<and>
   length (items (snd (lru_Get k c))) \<le> length (items c) \<and>
   lru_size (snd (lru_Get k c)) = lru_size c"
proof (cases "map_of (items c) k")
  case None
  then show ?thesis by (simp add: lru_Get_def)
next
  case (Some v)
  then have "(k, v) \<in> set (items c)" by (rule map_of_SomeD)
  then have "length (filter (\<lambda>p. fst p \<noteq> k) (items c)) < length (items c)"
    by (intro length_filter_less [of "(k, v)"]) auto
  moreover have "map_of ((k, v) # filter (\<lambda>p. fst p \<noteq> k) (items c)) = map_of (items c)"
    using Some by (auto simp: map_of_filter_other fun_eq_iff)
  ultimately show ?thesis using Some by (simp add: lru_Get_def)
qed

lemma same_handle_refl: "same_handle d d"
  by (simp add: same_handle_def)

lemma same_handle_trace: "same_handle d d' \<Longrightarrow> same_handle d (ignoreFakeError d')"
  by (simp add: same_handle_def ignoreFakeError_def)

lemma same_handle_Get: "same_handle d (d\<lparr>EventsHeaders := snd (lru_Get k (EventsHeaders d))\<rparr>)"
  using lru_Get_same [of k "EventsHeaders d"] by (simp add: same_handle_def)

lemma HasEvent_same: "same_handle d (snd (HasEvent b f h d))"
proof (cases "fst (lru_Get h (EventsHeaders d))")
  case None
  from lru_Get_miss_same [OF this] show ?thesis
    by (cases f) (simp_all add: HasEvent_def ReadTransaction_def same_handle_refl same_handle_trace)
next
  case (Some ev)
  then have "HasEvent b f h d = (Returns True, d\<lparr>EventsHeaders := snd (lru_Get h (EventsHeaders d))\<rparr>)"
    by (cases "lru_Get h (EventsHeaders d)") (simp add: HasEvent_def)
  then show ?thesis by (simp add: same_handle_Get)
qed

lemma GetEvent_same: "same_handle d (snd (GetEvent b f f2 h d))"
proof (cases "fst (lru_Get h (EventsHeaders d))")
  case None
  from lru_Get_miss_same [OF this] show ?thesis
    by (cases f; cases f2)
      (auto simp: GetEvent_def ReadTransaction_def Let_def same_handle_def
        ignoreFakeError_def split: list.splits)
next
  case (Some ev)
  then have "GetEvent b f f2 h d = (Returns (Some ev), d\<lparr>EventsHeaders := snd (lru_Get h (EventsHeaders d))\<rparr>)"
    by (cases "lru_Get h (EventsHeaders d)") (simp add: GetEvent_def)
  then show ?thesis by (simp add: same_handle_Get)
qed

lemma FindAncestors_same: "same_handle d (snd (FindAncestors b f h d))"
  by (cases f) (simp_all add: FindAncestors_def ReadTransaction_def same_handle_refl same_handle_trace)

lemma GetEpoch_same: "same_handle d (snd (GetEpoch b f d))"
  by (cases f) (auto simp: GetEpoch_def ReadTransaction_def same_handle_refl same_handle_trace
      split: option.splits)

lemma SetEpoch_same: "same_handle d (snd (SetEpoch b f v d))"
  by (cases f) (auto simp: SetEpoch_def WriteTransaction_def same_handle_def ignoreFakeError_def
      set_epoch_num_def split: option.splits)

lemma after_snd: "after x = Some d \<Longrightarrow> d = snd x"
  by (cases x) (auto simp: after_def split: result.splits)

lemma ask_same: "ask b f f2 q d = Some d' \<Longrightarrow> same_handle d d'"
  by (cases q)
    (auto simp: ask_def HasEvent_same GetEvent_same FindAncestors_same GetEpoch_same SetEpoch_same
      dest!: after_snd)

lemma map_of_lru_Add:
  assumes "length (items c) < lru_size c"
  shows "map_of (items (lru_Add k v c)) = (map_of (items c))(k \<mapsto> v)"
proof (cases "map_of (items c) k")
  case None
  with assms show ?thesis by (simp add: lru_Add_def Let_def)
next
  case (Some u)
  then show ?thesis by (auto simp: lru_Add_def map_of_filter_other fun_eq_iff)
qed

lemma length_lru_Add: "length (items (lru_Add k v c)) \<le> Suc (length (items c))"
proof (cases "map_of (items c) k")
  case None
  then show ?thesis by (simp add: lru_Add_def Let_def)
next
  case (Some u)
  have "length (filter (\<lambda>p. fst p \<noteq> k) (items c)) \<le> length (items c)" by simp
  with Some show ?thesis by (simp add: lru_Add_def)
qed

lemma step_cases:
  assumes "step a s = Some s'"
  obtains (frame) "Neo4jDb s' = Neo4jDb s" "load_vars s' = load_vars s" "handled s' = handled s"
      "load_state s' = load_state s \<or> (load_state s = Starting \<and> load_state s' = Running)" "synced s' = synced s"
      "sent s' = sent s \<or> \<not> out_closed s"
    | (crash) f now t ts where "a = Load_next f now" "out s = t # ts" "s' = s\<lparr>out := ts, crashed := True\<rparr>"
    | (round) f now t ts d l w where "a = Load_next f now" "load_state s = Running" "out s = t # ts"
        "Load_step f now t (Neo4jDb s, load_vars s, wgs s) = Returns (d, l, w)"
        "s' = s\<lparr>Neo4jDb := d, out := ts, wgs := w, load_vars := l, handled := handled s @ [t]\<rparr>"
    | (fin) "a = Load_end" "load_state s = Running" "out s = []" "\<not> crashed s"
        "s' = s\<lparr>Neo4jDb := (Neo4jDb s)\<lparr>logged := logged (Neo4jDb s) @ [Info_total (last_ev (load_vars s)) (total_n (load_vars s))]\<rparr>,
                load_state := Finished\<rparr>"
    | (asked) d where "same_handle (Neo4jDb s) d" "s' = s\<lparr>Neo4jDb := d\<rparr>"
proof (cases a)
  case (Save_enter e)
  with assms show ?thesis by (intro frame) (auto simp: step_simps split: if_splits)
next
  case (Save_send n)
  with assms show ?thesis by (intro frame) (auto simp: step_simps split: if_splits)
next
  case (Save_return n)
  with assms show ?thesis by (intro frame) (auto simp: step_simps split: if_splits)
next
  case Close
  with assms show ?thesis by (intro frame) (auto simp: step_simps split: if_splits)
next
  case (Load_begin b)
  with assms show ?thesis by (intro frame) (auto simp: step_simps split: if_splits)
next
  case (Load_next f now)
  with assms have nc: "\<not> crashed s" and run: "load_state s = Running"
    by (auto simp: step_simps split: if_splits)
  with assms Load_next obtain t ts where out: "out s = t # ts"
    by (cases "out s") (auto simp: step_simps)
  show ?thesis
  proof (cases "Load_step f now t (Neo4jDb s, load_vars s, wgs s)")
    case Panics
    with assms Load_next nc run out show ?thesis by (intro crash) (auto simp: step_simps)
  next
    case (Returns r)
    obtain d l w where "r = (d, l, w)" by (cases r)
    with Returns assms Load_next nc run out show ?thesis
      by (intro round [of f now t ts d l w]) (auto simp: step_simps)
  qed
next
  case Load_end
  with assms show ?thesis by (intro fin) (auto simp: step_simps Load_summary_def split: if_splits)
next
  case (Query b f f2 q)
  show ?thesis
  proof (cases "ask b f f2 q (Neo4jDb s)")
    case None
    with assms Query show ?thesis by (intro frame) (auto simp: step_simps split: if_splits)
  next
    case (Some d)
    with assms Query have "s' = s\<lparr>Neo4jDb := d\<rparr>" by (auto simp: step_simps split: if_splits)
    with ask_same [OF Some] show ?thesis by (rule asked)
  qed
qed

lemma inv_fin_newStore: "inv_fin db sy (newStore db sy)"
  by (simp add: inv_fin_def newStore_def)

lemma inv_fin_step:
  assumes "inv_fin db sy s" "inv_sizes s" "inv_hist s" "step a s = Some s'"
  shows "inv_fin db sy s'"
  using assms(4)
proof (cases rule: step_cases)
  case frame
  with assms(1,2) show ?thesis by (auto simp: inv_fin_def inv_sizes_def)
next
  case (crash f now t ts)
  with assms(1,2) show ?thesis by (auto simp: inv_fin_def inv_sizes_def)
next
  case (round f now t ts d l w)
  from Load_step_Db [OF round(4)] assms(1) round(2) show ?thesis
    by (simp add: inv_fin_def round(5))
next
  case fin
  with assms(1,3) show ?thesis by (simp add: inv_fin_def inv_hist_def)
next
  case (asked d)
  with assms(1) show ?thesis by (simp add: inv_fin_def same_handle_def)
qed

lemma inv_stored_step:
  assumes "inv_stored s" "step a s = Some s'" "no_fault a"
  shows "inv_stored s'"
  using assms(2)
proof (cases rule: step_cases)
  case frame
  with assms(1) show ?thesis by (simp add: inv_stored_def stored_def)
next
  case (crash f now t ts)
  with assms(1) show ?thesis by (simp add: inv_stored_def stored_def)
next
  case (round f now t ts d l w)
  with assms(3) have f: "f = NoFault" by simp
  from Load_step_Db(1) [OF round(4)] have d: "drv d = committed NoFault (event t) (drv (Neo4jDb s))"
    by (simp add: f)
  show ?thesis using assms(1)
    by (auto simp: inv_stored_def stored_def round(5) d committed_keeps committed_NoFault)
next
  case fin
  with assms(1) show ?thesis by (simp add: inv_stored_def stored_def)
next
  case (asked d)
  with assms(1) show ?thesis by (simp add: inv_stored_def stored_def same_handle_def match_event_def)
qed

lemma inv_cache_step:
  assumes "inv_cache s" "step a s = Some s'"
  shows "inv_cache s'"
  using assms(2)
proof (cases rule: step_cases)
  case frame
  with assms(1) show ?thesis by (simp add: inv_cache_def)
next
  case (crash f now t ts)
  with assms(1) show ?thesis by (simp add: inv_cache_def)
next
  case (round f now t ts d l w)
  let ?c = "EventsHeaders (Neo4jDb s)"
  let ?k = "Hash (event t)"
  have c': "EventsHeaders d = lru_Add ?k (event t) ?c" by (rule Load_step_Returns(5) [OF round(4)])
  from assms(1) have len: "length (items ?c) \<le> length (handled s)" by (simp add: inv_cache_def)
  have 1: "length (items (EventsHeaders d)) \<le> length (handled s @ [t])"
    using length_lru_Add [of ?k "event t" ?c] len by (simp add: c')
  have 2: "\<exists>t'\<in>set (handled s @ [t]). Hash (event t') = Hash (event u) \<and>
             map_of (items (EventsHeaders d)) (Hash (event u)) = Some (event t')"
    if room: "length (handled s @ [t]) \<le> lru_size (EventsHeaders d)" and u: "u \<in> set (handled s @ [t])"
    for u
  proof -
    from room len have lt: "length (items ?c) < lru_size ?c" by (simp add: c')
    note m = map_of_lru_Add [OF lt, of ?k "event t"]
    show ?thesis
    proof (cases "Hash (event u) = ?k")
      case True
      then show ?thesis by (auto simp: c' m)
    next
      case False
      with u have "u \<in> set (handled s)" by auto
      moreover from room have "length (handled s) \<le> lru_size ?c" by (simp add: c')
      ultimately obtain t' where "t' \<in> set (handled s)" "Hash (event t') = Hash (event u)"
        "map_of (items ?c) (Hash (event u)) = Some (event t')"
        using assms(1) unfolding inv_cache_def by blast
      with False show ?thesis by (auto simp: c' m)
    qed
  qed
  from 1 2 show ?thesis unfolding inv_cache_def round(5) by simp
next
  case fin
  with assms(1) show ?thesis by (simp add: inv_cache_def)
next
  case (asked d)
  with assms(1) show ?thesis by (auto simp: inv_cache_def same_handle_def)
qed

lemma inv_all_run:
  assumes "pipeline_inv s" "inv_fin db sy s" "run as s = Some s'"
  shows "pipeline_inv s' \<and> inv_fin db sy s'"
  using assms
proof (induction as arbitrary: s)
  case Nil
  then show ?case by simp
next
  case (Cons a as)
  from Cons.prems(3) obtain s1 where s1: "step a s = Some s1" "run as s1 = Some s'"
    by (auto split: option.splits)
  have "pipeline_inv s1" using Cons.prems(1) s1(1) by (rule inv_step)
  moreover have "inv_fin db sy s1"
    using Cons.prems(1,2) s1(1) by (auto simp: pipeline_inv_def intro: inv_fin_step)
  ultimately show ?case using Cons.IH s1(2) by blast
qed

lemma inv_cache_run: "inv_cache s \<Longrightarrow> run as s = Some s' \<Longrightarrow> inv_cache s'"
  by (induction as arbitrary: s) (auto split: option.splits dest: inv_cache_step)

lemma inv_stored_run:
  assumes "inv_stored s" "run as s = Some s'" "list_all no_fault as"
  shows "inv_stored s'"
  using assms
  by (induction as arbitrary: s) (auto split: option.splits dest: inv_stored_step)

lemma reachable_inv:
  assumes "run as (newStore db sy) = Some s"
  shows "pipeline_inv s" and "inv_fin db sy s" and "list_all no_fault as \<Longrightarrow> inv_stored s"
    and "items (EventsHeaders db) = [] \<Longrightarrow> inv_cache s"
proof -
  from inv_all_run [OF inv_newStore inv_fin_newStore assms] show "pipeline_inv s" "inv_fin db sy s"
    by simp_all
  have "inv_stored (newStore db sy)" by (simp add: inv_stored_def newStore_def)
  then show "list_all no_fault as \<Longrightarrow> inv_stored s" using assms by (rule inv_stored_run)
  assume "items (EventsHeaders db) = []"
  then have "inv_cache (newStore db sy)" by (simp add: inv_cache_def newStore_def)
  then show "inv_cache s" using assms by (rule inv_cache_run)
qed


section \<open>The epoch counter\<close>

lemma epoch_roundtrip: "ucast (ucast (v :: 32 word) :: 64 word) = v"
  by (rule ucast_up_ucast_id) (simp add: is_up)

lemma epoch_in_range: "uint (n :: 64 word) < 2 ^ 32 \<Longrightarrow> uint (ucast n :: 32 word) = uint n"
  by (simp add: unsigned_ucast_eq take_bit_int_eq_self)

text \<open>
  Claim C7, as amended. With an open session and no failing statement, \<open>GetEpoch\<close>
  returns 1 whenever the \<open>Epoch\<close> node is absent from the store, and also whenever its
  read transaction reports an error, which is swallowed; otherwise it returns the stored
  counter value: the stored \<open>int64\<close> converted to \<open>idx.Epoch\<close>, which is the same number
  whenever it fits 32 bits, as every value \<open>SetEpoch\<close> writes does.
\<close>

theorem GetEpoch_absent_or_stored:
  "(epoch_num (drv d) = None \<and> f \<noteq> RunFails \<longrightarrow> fst (GetEpoch True f d) = Returns 1) \<and>
   GetEpoch True TxFails d = (Returns 1, ignoreFakeError d) \<and>
   (\<forall>n. epoch_num (drv d) = Some n \<longrightarrow>
      GetEpoch True NoFault d = (Returns (ucast n), d) \<and>
      (uint n < 2 ^ 32 \<longrightarrow> uint (ucast n :: 32 word) = uint n))"
  by (cases f) (auto simp: GetEpoch_def ReadTransaction_def epoch_in_range)

theorem GetEpoch_absent_or_stored_witness:
  "epoch_num (drv db_unbooted) = None \<and> NoFault \<noteq> RunFails \<and>
   fst (GetEpoch True NoFault db_unbooted) = Returns 1 \<and>
   fst (GetEpoch True TxFails db_unbooted) = Returns 1 \<and>
   epoch_num (drv db_epoch5) = Some 5 \<and>
   GetEpoch True NoFault db_epoch5 = (Returns 5, db_epoch5) \<and>
   uint (5 :: 64 word) < 2 ^ 32 \<and> uint (ucast (5 :: 64 word) :: 32 word) = uint (5 :: 64 word)"
proof -
  have a: "epoch_num (drv db_unbooted) = None" "NoFault \<noteq> RunFails"
    "epoch_num (drv db_epoch5) = Some 5"
    by (simp_all add: db_unbooted_def g_empty_def db_epoch5_def)
  have c: "uint (5 :: 64 word) < 2 ^ 32" by simp
  from GetEpoch_absent_or_stored [of db_unbooted NoFault]
    GetEpoch_absent_or_stored [of db_epoch5 NoFault] a c
  show ?thesis by simp
qed

text \<open>
  Claim C7 as stated fails: the \<open>Epoch\<close> node holds 5, the read transaction reports an
  error, and \<open>GetEpoch\<close> returns 1.
\<close>

theorem GetEpoch_error_counterexample:
  "epoch_num (drv db_epoch5) = Some 5 \<and>
   fst (GetEpoch True TxFails db_epoch5) = Returns 1 \<and>
   (1 :: 32 word) \<noteq> ucast (5 :: 64 word)"
  by (simp add: GetEpoch_def ReadTransaction_def db_epoch5_def)

text \<open>
  Claim C8, as amended. When the \<open>Epoch\<close> node exists and the driver reports no
  failure, \<open>SetEpoch v\<close> overwrites the counter whatever it was (nothing is compared),
  and \<open>GetEpoch\<close> then returns \<open>v\<close>. When the node does not exist, \<open>SetEpoch\<close> matches
  nothing and leaves the store as it was.
\<close>

theorem SetEpoch_GetEpoch:
  "(\<forall>n. epoch_num (drv d) = Some n \<longrightarrow>
      fst (SetEpoch True NoFault v d) = Returns () \<and>
      fst (GetEpoch True NoFault (snd (SetEpoch True NoFault v d))) = Returns v) \<and>
   (epoch_num (drv d) = None \<longrightarrow> SetEpoch True NoFault v d = (Returns (), d))"
  by (simp add: SetEpoch_def GetEpoch_def WriteTransaction_def ReadTransaction_def
      set_epoch_num_def epoch_roundtrip)

theorem SetEpoch_GetEpoch_witness:
  "epoch_num (drv db_fresh) = Some 1 \<and>
   fst (SetEpoch True NoFault 5 db_fresh) = Returns () \<and>
   fst (GetEpoch True NoFault (snd (SetEpoch True NoFault 5 db_fresh))) = Returns 5 \<and>
   epoch_num (drv db_unbooted) = None \<and>
   SetEpoch True NoFault 5 db_unbooted = (Returns (), db_unbooted)"
proof -
  have a: "epoch_num (drv db_fresh) = Some 1" "epoch_num (drv db_unbooted) = None"
    by (simp_all add: db_fresh_def db_unbooted_def g_empty_def)
  from SetEpoch_GetEpoch [of db_fresh 5] SetEpoch_GetEpoch [of db_unbooted 5] a
  show ?thesis by simp
qed

text \<open>
  Claim C8 as stated fails on a store whose \<open>Epoch\<close> node was never created (the third
  DDL transaction of \<open>New\<close> failed and the error was ignored): after \<open>SetEpoch 5\<close>,
  \<open>GetEpoch\<close> returns 1.
\<close>

theorem SetEpoch_unbooted_counterexample:
  "New True NoFault NoFault TxFails g_empty = Some db_unbooted \<and>
   fst (SetEpoch True NoFault 5 db_unbooted) = Returns () \<and>
   fst (GetEpoch True NoFault (snd (SetEpoch True NoFault 5 db_unbooted))) = Returns 1 \<and>
   (1 :: 32 word) \<noteq> 5"
  by (simp add: New_def run_ddl_def create_epoch_def SetEpoch_def GetEpoch_def WriteTransaction_def
      ReadTransaction_def set_epoch_num_def db_unbooted_def g_empty_def)

section \<open>Completion signals\<close>



section \<open>Queries on a cold cache, and failures\<close>















section \<open>The pipeline\<close>

text \<open>
  Claim C6. The channel never holds more than 10 tasks. A send on the full, open
  channel cannot happen (the caller of \<open>Save\<close> is blocked); as soon as there is room the
  send of a waiting caller happens and puts its task last. Unless the process has
  panicked, the tasks sent are the tasks \<open>Load\<close> has finished followed by the tasks in
  the channel: none is dropped.
\<close>

theorem out_bounded:
  assumes "run as (newStore db sy) = Some s"
  shows "length (out s) \<le> 10 \<and>
         (\<not> crashed s \<longrightarrow> sent s = handled s @ out s) \<and>
         (\<forall>n. length (out s) = 10 \<and> \<not> out_closed s \<longrightarrow> step (Save_send n) s = None) \<and>
         (\<forall>n. \<not> crashed s \<and> \<not> out_closed s \<and> n < length (calls s) \<and>
              c_pc (calls s ! n) = Sending \<and> length (out s) < 10 \<longrightarrow>
              (\<exists>s'. step (Save_send n) s = Some s' \<and> out s' = out s @ [c_task (calls s ! n)]))"
proof -
  from reachable_inv(1) [OF assms] have sz: "inv_sizes s" and hi: "inv_hist s"
    by (simp_all add: pipeline_inv_def)
  have 1: "length (out s) \<le> 10" using sz by (simp add: inv_sizes_def out_cap_def)
  have 2: "\<not> crashed s \<longrightarrow> sent s = handled s @ out s" using hi by (simp add: inv_hist_def)
  have 3: "\<forall>n. length (out s) = 10 \<and> \<not> out_closed s \<longrightarrow> step (Save_send n) s = None"
    by (simp add: step_simps out_cap_def)
  have 4: "\<forall>n. \<not> crashed s \<and> \<not> out_closed s \<and> n < length (calls s) \<and>
              c_pc (calls s ! n) = Sending \<and> length (out s) < 10 \<longrightarrow>
              (\<exists>s'. step (Save_send n) s = Some s' \<and> out s' = out s @ [c_task (calls s ! n)])"
    by (simp add: step_simps out_cap_def)
  from 1 2 3 4 show ?thesis by blast
qed

theorem out_bounded_witness:
  "run fill_out (newStore db_fresh False) \<noteq> None \<and>
   length (out (the (run fill_out (newStore db_fresh False)))) = 10 \<and>
   \<not> crashed (the (run fill_out (newStore db_fresh False))) \<and>
   \<not> out_closed (the (run fill_out (newStore db_fresh False))) \<and>
   sent (the (run fill_out (newStore db_fresh False))) = out (the (run fill_out (newStore db_fresh False))) \<and>
   step (Save_send 10) (the (run fill_out (newStore db_fresh False))) = None \<and>
   run enter_A (newStore db_fresh False) \<noteq> None \<and>
   out (the (run enter_A (newStore db_fresh False))) = [] \<and>
   c_pc (calls (the (run enter_A (newStore db_fresh False))) ! 0) = Sending \<and>
   map_option out (step (Save_send 0) (the (run enter_A (newStore db_fresh False)))) =
     Some [\<lparr>event = evA, onDone = None\<rparr>]"
proof -
  let ?s = "the (run fill_out (newStore db_fresh False))"
  let ?u = "the (run enter_A (newStore db_fresh False))"
  have ok: "run fill_out (newStore db_fresh False) \<noteq> None" "run enter_A (newStore db_fresh False) \<noteq> None"
    by code_simp+
  then have r: "run fill_out (newStore db_fresh False) = Some ?s" "run enter_A (newStore db_fresh False) = Some ?u"
    by simp_all
  have c: "length (out ?s) = 10" "\<not> crashed ?s" "\<not> out_closed ?s" "handled ?s = []"
    "\<not> crashed ?u" "\<not> out_closed ?u" "0 < length (calls ?u)" "c_pc (calls ?u ! 0) = Sending"
    "out ?u = []" "c_task (calls ?u ! 0) = \<lparr>event = evA, onDone = None\<rparr>"
    by code_simp+
  from out_bounded [OF r(1)] out_bounded [OF r(2)] c ok
  show ?thesis by auto
qed










section \<open>Ancestors of saved events\<close>








end
